theory Spec2Isabelle
  imports Complex_Main
begin

section \<open>Values sent by clients\<close>

text \<open>
  The server (\<^verbatim>\<open>server/server.js\<close>) receives JSON payloads over Socket.IO and never
  computes with the numbers in them, it only tests their type and copies them. A payload
  is a JSON value; a JSON number is a finite decimal, embedded here in the reals. An
  object is the list of its own properties, each name once.
\<close>

datatype jsval =
    JUndefined
  | JNull
  | JBool bool
  | JNum real
  | JStr string
  | JArr "jsval list"
  | JObj "(string \<times> jsval) list"

text \<open>JavaScript truthiness, as tested by \<^verbatim>\<open>ev && ...\<close>.\<close>

fun truthy :: "jsval \<Rightarrow> bool" where
  "truthy JUndefined = False"
| "truthy JNull = False"
| "truthy (JBool b) = b"
| "truthy (JNum n) = (n \<noteq> 0)"
| "truthy (JStr s) = (s \<noteq> [])"
| "truthy (JArr vs) = True"
| "truthy (JObj kvs) = True"

text \<open>\<^verbatim>\<open>typeof v === "number"\<close>.\<close>

fun is_number :: "jsval \<Rightarrow> bool" where
  "is_number (JNum n) = True"
| "is_number v = False"

text \<open>Reading a property of \<^verbatim>\<open>null\<close> or \<^verbatim>\<open>undefined\<close> throws a TypeError.\<close>

fun nullish :: "jsval \<Rightarrow> bool" where
  "nullish JUndefined = True"
| "nullish JNull = True"
| "nullish v = False"

text \<open>
  \<^verbatim>\<open>v.k\<close> for a value that is not nullish. The server reads only the names
  \<^verbatim>\<open>prevX, prevY, x, y, color, size, tool, clientId\<close>, none of which is inherited by
  a JSON value, so a name that is not an own property of an object reads as
  \<^verbatim>\<open>undefined\<close>.
\<close>

fun field :: "jsval \<Rightarrow> string \<Rightarrow> jsval" where
  "field (JObj kvs) k = (case map_of kvs k of Some v \<Rightarrow> v | None \<Rightarrow> JUndefined)"
| "field v k = JUndefined"

datatype error = TypeError

section \<open>Server state\<close>

text \<open>
  Socket ids and room names are strings; the room name is the payload of
  \<^verbatim>\<open>join-room\<close>, as the client sends it. The snapshot handlers
  (\<^verbatim>\<open>saveSnapshot\<close>, \<^verbatim>\<open>requestLatest\<close>) call the module \<^verbatim>\<open>./drawing-state\<close> only
  and are left out. A second copy of the server among the sources stores the author's name
  in each operation as well and emits a map of names with the user list; its handlers are
  the same otherwise.
\<close>

type_synonym sid = string

text \<open>
  An operation as built by the draw handler. The fields \<^verbatim>\<open>x\<close>, \<^verbatim>\<open>y\<close> and
  \<^verbatim>\<open>size\<close> of the source are named \<open>opX\<close>, \<open>opY\<close> and \<open>opSize\<close>.
  The source's operation has no room field: its room is the key of the log that holds it.
\<close>

record op =
  userId :: sid
  prevX :: jsval
  prevY :: jsval
  opX :: jsval
  opY :: jsval
  color :: jsval
  opSize :: jsval
  tool :: jsval
  opId :: nat
  active :: bool
  clientId :: jsval

record user =
  username :: string
  avatarColor :: string

text \<open>
  The module \<^verbatim>\<open>./rooms\<close> (\<^verbatim>\<open>roomStore\<close>) is not part of the sources at hand.
  Its three functions called by the server are parameters of the model, over an
  arbitrary registry state \<open>'g\<close>.
\<close>

record 'g room_store =
  addClient :: "string \<Rightarrow> sid \<Rightarrow> 'g \<Rightarrow> 'g"
  removeClient :: "string \<Rightarrow> sid \<Rightarrow> 'g \<Rightarrow> 'g"
  listClients :: "string \<Rightarrow> 'g \<Rightarrow> sid list"

text \<open>
  \<^item> \<open>roomsOperations\<close>: the own properties of the object \<^verbatim>\<open>roomsOperations\<close>;
  \<^item> \<open>users\<close>: the object \<^verbatim>\<open>users\<close>;
  \<^item> \<open>currentRoom\<close>: the variable \<^verbatim>\<open>currentRoom\<close> of each connection's closure,
    \<open>None\<close> for \<^verbatim>\<open>null\<close>;
  \<^item> \<open>adapterRooms\<close>: Socket.IO's rooms, each with the sockets in it
    (\<^verbatim>\<open>socket.join\<close>, \<^verbatim>\<open>socket.leave\<close>);
  \<^item> \<open>roomStore\<close>: the state of the module \<^verbatim>\<open>./rooms\<close>.
\<close>

record 'g server =
  roomsOperations :: "string \<rightharpoonup> op list"
  users :: "sid \<rightharpoonup> user"
  currentRoom :: "sid \<Rightarrow> string option"
  adapterRooms :: "string \<Rightarrow> sid set"
  roomStore :: 'g

definition init :: "'g \<Rightarrow> 'g server" where
  "init g = \<lparr>roomsOperations = Map.empty, users = Map.empty,
     currentRoom = (\<lambda>s. None), adapterRooms = (\<lambda>r. {}), roomStore = g\<rparr>"

subsection \<open>Reading \<^verbatim>\<open>roomsOperations[room]\<close>\<close>

text \<open>
  \<^verbatim>\<open>roomsOperations\<close> is created by \<^verbatim>\<open>{}\<close>, so a name that is not an own property
  is looked up in \<^verbatim>\<open>Object.prototype\<close>. The table gives the names found there and the
  \<^verbatim>\<open>length\<close> property of the value: the arity of the function, and none for
  \<^verbatim>\<open>__proto__\<close>, which reads as \<^verbatim>\<open>Object.prototype\<close> itself. None of these values
  has a method \<^verbatim>\<open>push\<close> or \<^verbatim>\<open>forEach\<close> or an indexed property.
\<close>

definition object_prototype :: "(string \<times> nat option) list" where
  "object_prototype =
    [(''constructor'', Some 1), (''toString'', Some 0), (''valueOf'', Some 0),
     (''toLocaleString'', Some 0), (''hasOwnProperty'', Some 1),
     (''isPrototypeOf'', Some 1), (''propertyIsEnumerable'', Some 1),
     (''__defineGetter__'', Some 2), (''__defineSetter__'', Some 2),
     (''__lookupGetter__'', Some 1), (''__lookupSetter__'', Some 1),
     (''__proto__'', None)]"

datatype slot = Log "op list" | Inherited "nat option" | Absent

definition lookupOps :: "'g server \<Rightarrow> string \<Rightarrow> slot" where
  "lookupOps st room =
    (case roomsOperations st room of
       Some ops \<Rightarrow> Log ops
     | None \<Rightarrow> (case map_of object_prototype room of
                  Some n \<Rightarrow> Inherited n
                | None \<Rightarrow> Absent))"

definition storeOps :: "string \<Rightarrow> op list \<Rightarrow> 'g server \<Rightarrow> 'g server" where
  "storeOps room ops st = st\<lparr>roomsOperations := (roomsOperations st)(room \<mapsto> ops)\<rparr>"

text \<open>
  The guard \<^verbatim>\<open>if (!currentRoom) return;\<close> of every handler: the empty string is falsy
  like \<^verbatim>\<open>null\<close>.
\<close>

definition joinedRoom :: "'g server \<Rightarrow> sid \<Rightarrow> string option" where
  "joinedRoom st s =
    (case currentRoom st s of
       None \<Rightarrow> None
     | Some room \<Rightarrow> if room = [] then None else Some room)"

subsection \<open>Emissions\<close>

text \<open>
  \<^verbatim>\<open>io.to(room).emit(...)\<close> is \<open>ToRoom room\<close>, \<^verbatim>\<open>socket.emit(...)\<close> is
  \<open>ToSocket s\<close>. Socket.IO delivers \<^verbatim>\<open>io.to(room).emit\<close> to every socket in the
  room, the emitting one included.
\<close>

datatype target = ToRoom string | ToSocket sid

datatype message =
    CanvasHistory slot
  | UserInfo "user option"
  | UserList "(sid \<times> string \<times> string) list"
  | DrawEv op
  | ClearUserStrokes "nat list"
  | UndoOp nat
  | RedoOp nat
  | CursorEv sid jsval jsval jsval
  | RemoveCursor sid

type_synonym emission = "target \<times> message"


definition socketJoin :: "sid \<Rightarrow> string \<Rightarrow> 'g server \<Rightarrow> 'g server" where
  "socketJoin s room st =
    st\<lparr>adapterRooms := (adapterRooms st)(room := insert s (adapterRooms st room))\<rparr>"

definition socketLeave :: "sid \<Rightarrow> string \<Rightarrow> 'g server \<Rightarrow> 'g server" where
  "socketLeave s room st =
    st\<lparr>adapterRooms := (adapterRooms st)(room := adapterRooms st room - {s})\<rparr>"

definition broadcastUserList :: "'g room_store \<Rightarrow> 'g server \<Rightarrow> string \<Rightarrow> emission" where
  "broadcastUserList api st room =
    (ToRoom room,
     UserList (map (\<lambda>c. (c,
         (case users st c of
            None \<Rightarrow> ''Unknown''
          | Some u \<Rightarrow> if username u = [] then ''Unknown'' else username u),
         (case users st c of
            None \<Rightarrow> ''#888888''
          | Some u \<Rightarrow> if avatarColor u = [] then ''#888888'' else avatarColor u)))
       (listClients api room (roomStore st))))"

section \<open>Handlers\<close>

type_synonym 'g outcome = "error + ('g server \<times> emission list)"

text \<open>
  The connection handler. The generated name and colour are arguments. Socket.IO puts a
  new socket in the room named by its own id.
\<close>

definition connection :: "'g server \<Rightarrow> sid \<Rightarrow> string \<Rightarrow> string \<Rightarrow> 'g outcome" where
  "connection st s name col =
    Inr (socketJoin s s
          (st\<lparr>users := (users st)(s \<mapsto> \<lparr>username = name, avatarColor = col\<rparr>),
              currentRoom := (currentRoom st)(s := None)\<rparr>), [])"

text \<open>
  \<^verbatim>\<open>join-room\<close>. The final \<^verbatim>\<open>console.log\<close> reads \<^verbatim>\<open>users[socket.id].username\<close>,
  which throws when the socket has no entry.
\<close>

definition joinRoom :: "'g room_store \<Rightarrow> 'g server \<Rightarrow> sid \<Rightarrow> string \<Rightarrow> 'g outcome" where
  "joinRoom api st s room =
    (let st1 = (case joinedRoom st s of
                  Some c \<Rightarrow> socketLeave s c st
                | None \<Rightarrow> st);
         st2 = st1\<lparr>currentRoom := (currentRoom st1)(s := Some room)\<rparr>;
         st3 = socketJoin s room st2;
         st4 = st3\<lparr>roomStore := addClient api room s (roomStore st3)\<rparr>;
         st5 = (case lookupOps st4 room of
                  Absent \<Rightarrow> storeOps room [] st4
                | Log ops \<Rightarrow> st4
                | Inherited n \<Rightarrow> st4);
         out = [(ToSocket s, CanvasHistory (lookupOps st5 room)),
                (ToSocket s, UserInfo (users st5 s)),
                broadcastUserList api st5 room]
     in case users st5 s of
          None \<Rightarrow> Inl TypeError
        | Some u \<Rightarrow> Inr (st5, out))"

text \<open>\<^verbatim>\<open>draw\<close>: the test on the payload, and the operation built from it.\<close>

definition validDraw :: "jsval \<Rightarrow> bool" where
  "validDraw ev \<longleftrightarrow>
     truthy ev \<and> is_number (field ev ''prevX'') \<and> is_number (field ev ''prevY'') \<and>
     is_number (field ev ''x'') \<and> is_number (field ev ''y'')"

definition mkOp :: "sid \<Rightarrow> jsval \<Rightarrow> nat \<Rightarrow> op" where
  "mkOp s ev n =
    \<lparr>userId = s, prevX = field ev ''prevX'', prevY = field ev ''prevY'',
     opX = field ev ''x'', opY = field ev ''y'', color = field ev ''color'',
     opSize = field ev ''size'', tool = field ev ''tool'', opId = n, active = True,
     clientId = field ev ''clientId''\<rparr>"

definition draw :: "'g server \<Rightarrow> sid \<Rightarrow> jsval \<Rightarrow> 'g outcome" where
  "draw st s ev =
    (case joinedRoom st s of
       None \<Rightarrow> Inr (st, [])
     | Some room \<Rightarrow>
         if validDraw ev then
           (case lookupOps st room of
              Log ops \<Rightarrow>
                (let opn = mkOp s ev (length ops)
                 in Inr (storeOps room (ops @ [opn]) st, [(ToRoom room, DrawEv opn)]))
            | Inherited n \<Rightarrow> Inl TypeError
            | Absent \<Rightarrow> Inl TypeError)
         else Inr (st, []))"

text \<open>
  \<^verbatim>\<open>clear\<close>: the \<^verbatim>\<open>forEach\<close> loop, left to right, with the array \<^verbatim>\<open>removed\<close> as
  accumulator.
\<close>

fun clearLoop :: "sid \<Rightarrow> op list \<Rightarrow> nat list \<Rightarrow> op list \<times> nat list" where
  "clearLoop s [] removed = ([], removed)"
| "clearLoop s (p # ps) removed =
    (if userId p = s \<and> active p
     then (let (ps', removed') = clearLoop s ps (removed @ [opId p])
           in (p\<lparr>active := False\<rparr> # ps', removed'))
     else (let (ps', removed') = clearLoop s ps removed
           in (p # ps', removed')))"

definition clear :: "'g server \<Rightarrow> sid \<Rightarrow> 'g outcome" where
  "clear st s =
    (case joinedRoom st s of
       None \<Rightarrow> Inr (st, [])
     | Some room \<Rightarrow>
         (case lookupOps st room of
            Log ops \<Rightarrow>
              (let (ops', removed) = clearLoop s ops []
               in Inr (storeOps room ops' st, [(ToRoom room, ClearUserStrokes removed)]))
          | Inherited n \<Rightarrow> Inl TypeError
          | Absent \<Rightarrow> Inl TypeError))"

text \<open>
  \<^verbatim>\<open>undo\<close>: the loop \<^verbatim>\<open>for (i = ops.length - 1; i >= 0; i--)\<close>. The argument of
  \<open>undoScan\<close> is \<open>i + 1\<close>; the result is the index at which the loop breaks.
\<close>

fun undoScan :: "sid \<Rightarrow> op list \<Rightarrow> nat \<Rightarrow> nat option" where
  "undoScan s ops 0 = None"
| "undoScan s ops (Suc i) =
    (if userId (ops ! i) = s \<and> active (ops ! i) then Some i else undoScan s ops i)"

text \<open>
  On an inherited value the loop starts at its \<^verbatim>\<open>length\<close> minus one: it does not run
  when the length is 0 or undefined, and otherwise reads \<^verbatim>\<open>userId\<close> of an undefined
  element.
\<close>

definition undo :: "'g server \<Rightarrow> sid \<Rightarrow> 'g outcome" where
  "undo st s =
    (case joinedRoom st s of
       None \<Rightarrow> Inr (st, [])
     | Some room \<Rightarrow>
         (case lookupOps st room of
            Log ops \<Rightarrow>
              (case undoScan s ops (length ops) of
                 None \<Rightarrow> Inr (st, [])
               | Some i \<Rightarrow>
                   Inr (storeOps room (ops[i := (ops ! i)\<lparr>active := False\<rparr>]) st,
                        [(ToRoom room, UndoOp (opId (ops ! i)))]))
          | Inherited n \<Rightarrow>
              (case n of
                 None \<Rightarrow> Inr (st, [])
               | Some 0 \<Rightarrow> Inr (st, [])
               | Some (Suc k) \<Rightarrow> Inl TypeError)
          | Absent \<Rightarrow> Inl TypeError))"

text \<open>\<^verbatim>\<open>redo\<close>: the loop \<^verbatim>\<open>for (i = 0; i < ops.length; i++)\<close>.\<close>

function redoScan :: "sid \<Rightarrow> op list \<Rightarrow> nat \<Rightarrow> nat option" where
  "redoScan s ops i =
    (if i < length ops
     then (if userId (ops ! i) = s \<and> \<not> active (ops ! i) then Some i
           else redoScan s ops (Suc i))
     else None)"
  by pat_completeness auto
termination
  by (relation "measure (\<lambda>(s, ops, i). length ops - i)") auto

declare redoScan.simps [simp del]

definition redo :: "'g server \<Rightarrow> sid \<Rightarrow> 'g outcome" where
  "redo st s =
    (case joinedRoom st s of
       None \<Rightarrow> Inr (st, [])
     | Some room \<Rightarrow>
         (case lookupOps st room of
            Log ops \<Rightarrow>
              (case redoScan s ops 0 of
                 None \<Rightarrow> Inr (st, [])
               | Some i \<Rightarrow>
                   Inr (storeOps room (ops[i := (ops ! i)\<lparr>active := True\<rparr>]) st,
                        [(ToRoom room, RedoOp (opId (ops ! i)))]))
          | Inherited n \<Rightarrow>
              (case n of
                 None \<Rightarrow> Inr (st, [])
               | Some 0 \<Rightarrow> Inr (st, [])
               | Some (Suc k) \<Rightarrow> Inl TypeError)
          | Absent \<Rightarrow> Inl TypeError))"

text \<open>\<^verbatim>\<open>cursor\<close>: \<^verbatim>\<open>pos.x\<close> is read without a test on \<^verbatim>\<open>pos\<close>.\<close>

definition cursor :: "'g server \<Rightarrow> sid \<Rightarrow> jsval \<Rightarrow> 'g outcome" where
  "cursor st s pos =
    (case joinedRoom st s of
       None \<Rightarrow> Inr (st, [])
     | Some room \<Rightarrow>
         if nullish pos then Inl TypeError
         else Inr (st, [(ToRoom room,
                CursorEv s (field pos ''x'') (field pos ''y'') (field pos ''color''))]))"

text \<open>
  \<^verbatim>\<open>disconnect\<close>. Socket.IO has removed the socket from all its rooms when the event
  fires.
\<close>

definition disconnect :: "'g room_store \<Rightarrow> 'g server \<Rightarrow> sid \<Rightarrow> 'g outcome" where
  "disconnect api st s =
    (let st0 = st\<lparr>adapterRooms := (\<lambda>room. adapterRooms st room - {s})\<rparr>
     in case joinedRoom st0 s of
          None \<Rightarrow> Inr (st0\<lparr>users := (users st0)(s := None)\<rparr>, [])
        | Some room \<Rightarrow>
            (let st1 = st0\<lparr>roomStore := removeClient api room s (roomStore st0)\<rparr>
             in Inr (st1\<lparr>users := (users st1)(s := None)\<rparr>,
                     [(ToRoom room, RemoveCursor s), broadcastUserList api st1 room])))"

subsection \<open>Requests and runs\<close>

datatype request =
    Connect string string
  | JoinRoom string
  | Draw jsval
  | Clear
  | Undo
  | Redo
  | Cursor jsval
  | Disconnect

fun handle :: "'g room_store \<Rightarrow> 'g server \<Rightarrow> sid \<Rightarrow> request \<Rightarrow> 'g outcome" where
  "handle api st s (Connect name col) = connection st s name col"
| "handle api st s (JoinRoom room) = joinRoom api st s room"
| "handle api st s (Draw ev) = draw st s ev"
| "handle api st s Clear = clear st s"
| "handle api st s Undo = undo st s"
| "handle api st s Redo = redo st s"
| "handle api st s (Cursor pos) = cursor st s pos"
| "handle api st s Disconnect = disconnect api st s"

text \<open>
  Requests are handled one at a time. An exception thrown by a handler is not caught and
  ends the process: the run stops there, with the state before that request.
\<close>

fun run :: "'g room_store \<Rightarrow> 'g server \<Rightarrow> (sid \<times> request) list \<Rightarrow> 'g server \<times> error option" where
  "run api st [] = (st, None)"
| "run api st ((s, rq) # evs) =
    (case handle api st s rq of
       Inl e \<Rightarrow> (st, Some e)
     | Inr (st', out) \<Rightarrow> run api st' evs)"

text \<open>The requests of the cross-user isolation property: draw, undo, redo and clear.\<close>

fun mutation :: "request \<Rightarrow> bool" where
  "mutation (Draw ev) = True"
| "mutation Clear = True"
| "mutation Undo = True"
| "mutation Redo = True"
| "mutation rq = False"

section \<open>Predicates on logs\<close>

text \<open>
  \<open>gapless\<close>: the ids of a log count up from 0. \<open>framed l l'\<close>: the log \<open>l'\<close>
  continues \<open>l\<close> and differs from it on the old positions in the field \<open>active\<close> at
  most. \<open>evolves s l l'\<close>: moreover only operations of \<open>s\<close> differ, and the new
  operations are of \<open>s\<close>.
\<close>

definition gapless :: "op list \<Rightarrow> bool" where
  "gapless l \<longleftrightarrow> map opId l = [0..<length l]"

definition evolves :: "sid \<Rightarrow> op list \<Rightarrow> op list \<Rightarrow> bool" where
  "evolves s l l' \<longleftrightarrow>
     length l \<le> length l' \<and>
     (\<forall>i<length l. l' ! i = (l ! i)\<lparr>active := active (l' ! i)\<rparr> \<and>
                    (userId (l ! i) \<noteq> s \<longrightarrow> l' ! i = l ! i)) \<and>
     (\<forall>i<length l'. length l \<le> i \<longrightarrow> userId (l' ! i) = s)"

definition framed :: "op list \<Rightarrow> op list \<Rightarrow> bool" where
  "framed l l' \<longleftrightarrow>
     length l \<le> length l' \<and> (\<forall>i<length l. l' ! i = (l ! i)\<lparr>active := active (l' ! i)\<rparr>)"

section \<open>Sample inputs\<close>

text \<open>
  Concrete inputs on which the handlers are evaluated: a registry that records nothing,
  the draw payload the client sends, a payload with coordinates only and a size that is
  not a number, and a run of three sessions in the room \<^verbatim>\<open>default\<close> with the log it
  leaves.
\<close>

definition nullStore :: "unit room_store" where
  "nullStore = \<lparr>addClient = (\<lambda>room s g. g), removeClient = (\<lambda>room s g. g),
     listClients = (\<lambda>room g. [])\<rparr>"

definition segment :: "real \<Rightarrow> real \<Rightarrow> real \<Rightarrow> real \<Rightarrow> jsval" where
  "segment a b c d =
    JObj [(''prevX'', JNum a), (''prevY'', JNum b), (''x'', JNum c), (''y'', JNum d),
          (''color'', JStr ''#000000''), (''size'', JNum 4), (''tool'', JStr ''brush'')]"

definition session :: "(sid \<times> request) list" where
  "session =
    [(''a'', Connect ''ANNA0001'' ''#FF6B6B''), (''b'', Connect ''BOB00002'' ''#4ECDC4''),
     (''c'', Connect ''CARL0003'' ''#45B7D1''),
     (''a'', JoinRoom ''default''), (''b'', JoinRoom ''default''), (''c'', JoinRoom ''default''),
     (''a'', Draw (segment 0 0 1 1)), (''b'', Draw (segment 5 5 6 6)),
     (''a'', Draw (segment 1 1 2 2)), (''a'', Undo)]"

definition bareSegment :: jsval where
  "bareSegment =
    JObj [(''prevX'', JNum 0), (''prevY'', JNum 0), (''x'', JNum 1), (''y'', JNum 1),
          (''size'', JStr ''wide'')]"

definition sampleLog :: "op list" where
  "sampleLog =
    [mkOp ''a'' (segment 0 0 1 1) 0, mkOp ''b'' (segment 5 5 6 6) 1,
     (mkOp ''a'' (segment 1 1 2 2) 2)\<lparr>active := False\<rparr>]"

definition sampleState :: "unit server" where
  "sampleState = fst (run nullStore (init ()) session)"

section \<open>Lemmas on the handlers\<close>

lemma clearLoop_eq:
  "clearLoop s ops removed =
     (map (\<lambda>p. if userId p = s \<and> active p then p\<lparr>active := False\<rparr> else p) ops,
      removed @ map opId (filter (\<lambda>p. userId p = s \<and> active p) ops))"
  by (induction ops arbitrary: removed) auto

lemma undoScan_Some:
  "undoScan s ops n = Some i \<Longrightarrow>
     i < n \<and> userId (ops ! i) = s \<and> active (ops ! i) \<and>
     (\<forall>j. i < j \<and> j < n \<longrightarrow> \<not> (userId (ops ! j) = s \<and> active (ops ! j)))"
proof (induction n)
  case 0
  then show ?case by simp
next
  case (Suc n)
  show ?case
  proof (cases "userId (ops ! n) = s \<and> active (ops ! n)")
    case True
    with Suc.prems show ?thesis by auto
  next
    case False
    with Suc.prems have "undoScan s ops n = Some i" by auto
    from Suc.IH[OF this] False show ?thesis
      by (auto simp: less_Suc_eq)
  qed
qed

lemma undoScan_None:
  "undoScan s ops n = None \<longleftrightarrow> (\<forall>j<n. \<not> (userId (ops ! j) = s \<and> active (ops ! j)))"
  by (induction n) (auto simp: less_Suc_eq)

lemma redoScan_Some:
  "redoScan s ops k = Some i \<Longrightarrow>
     k \<le> i \<and> i < length ops \<and> userId (ops ! i) = s \<and> \<not> active (ops ! i) \<and>
     (\<forall>j. k \<le> j \<and> j < i \<longrightarrow> \<not> (userId (ops ! j) = s \<and> \<not> active (ops ! j)))"
proof (induction s ops k rule: redoScan.induct)
  case (1 s ops k)
  note unfold = redoScan.simps[of s ops k]
  show ?case
  proof (cases "k < length ops")
    case False
    with "1.prems" unfold show ?thesis by simp
  next
    case lt: True
    show ?thesis
    proof (cases "userId (ops ! k) = s \<and> \<not> active (ops ! k)")
      case True
      with lt "1.prems" unfold show ?thesis by auto
    next
      case False
      with lt "1.prems" unfold have "redoScan s ops (Suc k) = Some i" by auto
      from "1.IH"[OF lt False this] False show ?thesis
        by (metis Suc_leD Suc_leI le_neq_implies_less)
    qed
  qed
qed

lemma redoScan_None:
  "redoScan s ops k = None \<longleftrightarrow>
     (\<forall>j. k \<le> j \<and> j < length ops \<longrightarrow> \<not> (userId (ops ! j) = s \<and> \<not> active (ops ! j)))"
proof (induction s ops k rule: redoScan.induct)
  case (1 s ops k)
  note unfold = redoScan.simps[of s ops k]
  show ?case
  proof (cases "k < length ops")
    case False
    with unfold show ?thesis by auto
  next
    case lt: True
    show ?thesis
    proof (cases "userId (ops ! k) = s \<and> \<not> active (ops ! k)")
      case True
      with lt unfold show ?thesis by auto
    next
      case False
      with lt unfold have eq: "redoScan s ops k = redoScan s ops (Suc k)" by simp
      from "1.IH"[OF lt False] lt False show ?thesis
        unfolding eq by (metis Suc_leD Suc_leI le_neq_implies_less)
    qed
  qed
qed

lemma evolves_refl: "evolves s l l"
  by (simp add: evolves_def)

lemma evolves_trans:
  assumes "evolves s l1 l2" and "evolves s l2 l3"
  shows "evolves s l1 l3"
proof -
  have len: "length l1 \<le> length l2" "length l2 \<le> length l3"
    using assms by (simp_all add: evolves_def)
  have old: "l3 ! i = (l1 ! i)\<lparr>active := active (l3 ! i)\<rparr> \<and>
             (userId (l1 ! i) \<noteq> s \<longrightarrow> l3 ! i = l1 ! i)" if "i < length l1" for i
  proof -
    from that len have i2: "i < length l2" by simp
    from assms(1) that have a: "l2 ! i = (l1 ! i)\<lparr>active := active (l2 ! i)\<rparr>"
      and a': "userId (l1 ! i) \<noteq> s \<longrightarrow> l2 ! i = l1 ! i"
      by (simp_all add: evolves_def)
    from assms(2) i2 have b: "l3 ! i = (l2 ! i)\<lparr>active := active (l3 ! i)\<rparr>"
      and b': "userId (l2 ! i) \<noteq> s \<longrightarrow> l3 ! i = l2 ! i"
      by (simp_all add: evolves_def)
    have "l3 ! i = (l1 ! i)\<lparr>active := active (l3 ! i)\<rparr>"
      by (subst b, subst a) simp
    moreover have "userId (l1 ! i) \<noteq> s \<longrightarrow> l3 ! i = l1 ! i"
      using a' b' by auto
    ultimately show ?thesis by simp
  qed
  have new: "userId (l3 ! i) = s" if "i < length l3" "length l1 \<le> i" for i
  proof (cases "i < length l2")
    case True
    with assms(1) that have u: "userId (l2 ! i) = s" by (simp add: evolves_def)
    from assms(2) True have "l3 ! i = (l2 ! i)\<lparr>active := active (l3 ! i)\<rparr>"
      by (simp add: evolves_def)
    then have "userId (l3 ! i) = userId (l2 ! i)"
      by (metis op.select_convs(1) op.surjective op.update_convs(10))
    with u show ?thesis by simp
  next
    case False
    with assms(2) that show ?thesis by (simp add: evolves_def)
  qed
  show ?thesis
    unfolding evolves_def using len old new by auto
qed

lemma lookupOps_Log: "lookupOps st room = Log ops \<longleftrightarrow> roomsOperations st room = Some ops"
  by (auto simp: lookupOps_def split: option.splits)

lemma roomsOperations_storeOps:
  "roomsOperations (storeOps room ops st) r = (if r = room then Some ops else roomsOperations st r)"
  by (simp add: storeOps_def)

lemma evolves_append: "evolves s l (l @ [mkOp s ev n])"
  by (auto simp: evolves_def nth_append mkOp_def less_Suc_eq)

lemma gapless_append: "gapless l \<Longrightarrow> gapless (l @ [mkOp s ev (length l)])"
  by (simp add: gapless_def mkOp_def)

lemma evolves_update:
  "i < length l \<Longrightarrow> userId (l ! i) = s \<Longrightarrow> evolves s l (l[i := (l ! i)\<lparr>active := b\<rparr>])"
  by (auto simp: evolves_def nth_list_update)

lemma gapless_update: "gapless l \<Longrightarrow> gapless (l[i := (l ! i)\<lparr>active := b\<rparr>])"
  by (simp add: gapless_def map_update) (metis list_update_id map_update)

lemma evolves_clear: "evolves s l (fst (clearLoop s l []))"
  by (auto simp: evolves_def clearLoop_eq)

lemma gapless_clear: "gapless l \<Longrightarrow> gapless (fst (clearLoop s l []))"
proof -
  have "map opId (map (\<lambda>p. if userId p = s \<and> active p then p\<lparr>active := False\<rparr> else p) l) = map opId l"
    by (induction l) auto
  then show "gapless l \<Longrightarrow> gapless (fst (clearLoop s l []))"
    by (simp add: gapless_def clearLoop_eq)
qed

lemma draw_cases:
  assumes "draw st s ev = Inr (st', out)"
  shows "(st' = st \<and> out = []) \<or>
         (\<exists>room ops. joinedRoom st s = Some room \<and> validDraw ev \<and>
            roomsOperations st room = Some ops \<and>
            st' = storeOps room (ops @ [mkOp s ev (length ops)]) st \<and>
            out = [(ToRoom room, DrawEv (mkOp s ev (length ops)))])"
  using assms
  by (auto simp: draw_def Let_def lookupOps_Log split: option.splits if_splits slot.splits)

lemma clear_cases:
  assumes "clear st s = Inr (st', out)"
  shows "(st' = st \<and> out = []) \<or>
         (\<exists>room ops. joinedRoom st s = Some room \<and> roomsOperations st room = Some ops \<and>
            st' = storeOps room (fst (clearLoop s ops [])) st \<and>
            out = [(ToRoom room, ClearUserStrokes (snd (clearLoop s ops [])))])"
  using assms
  by (auto simp: clear_def Let_def lookupOps_Log
           split: option.splits if_splits slot.splits prod.splits)

lemma undo_cases:
  assumes "undo st s = Inr (st', out)"
  shows "(st' = st \<and> out = []) \<or>
         (\<exists>room ops i. joinedRoom st s = Some room \<and> roomsOperations st room = Some ops \<and>
            undoScan s ops (length ops) = Some i \<and>
            st' = storeOps room (ops[i := (ops ! i)\<lparr>active := False\<rparr>]) st \<and>
            out = [(ToRoom room, UndoOp (opId (ops ! i)))])"
  using assms
  by (auto simp: undo_def lookupOps_Log split: option.splits if_splits slot.splits nat.splits)

lemma redo_cases:
  assumes "redo st s = Inr (st', out)"
  shows "(st' = st \<and> out = []) \<or>
         (\<exists>room ops i. joinedRoom st s = Some room \<and> roomsOperations st room = Some ops \<and>
            redoScan s ops 0 = Some i \<and>
            st' = storeOps room (ops[i := (ops ! i)\<lparr>active := True\<rparr>]) st \<and>
            out = [(ToRoom room, RedoOp (opId (ops ! i)))])"
  using assms
  by (auto simp: redo_def lookupOps_Log split: option.splits if_splits slot.splits nat.splits)

text \<open>What a draw, clear, undo or redo that returns does to the logs.\<close>

lemma mutation_effect:
  assumes "mutation rq" and "handle api st s rq = Inr (st', out)"
  shows "st' = st \<or>
         (\<exists>room ops ops'. roomsOperations st room = Some ops \<and> st' = storeOps room ops' st \<and>
            evolves s ops ops' \<and> (gapless ops \<longrightarrow> gapless ops'))"
proof (cases rq)
  case (Draw ev)
  with assms(2) have "draw st s ev = Inr (st', out)" by simp
  from draw_cases[OF this] show ?thesis
    using evolves_append gapless_append by blast
next
  case Clear
  with assms(2) have "clear st s = Inr (st', out)" by simp
  from clear_cases[OF this] show ?thesis
    using evolves_clear gapless_clear by blast
next
  case Undo
  with assms(2) have "undo st s = Inr (st', out)" by simp
  from undo_cases[OF this] show ?thesis
  proof
    assume "st' = st \<and> out = []"
    then show ?thesis by simp
  next
    assume "\<exists>room ops i. joinedRoom st s = Some room \<and> roomsOperations st room = Some ops \<and>
            undoScan s ops (length ops) = Some i \<and>
            st' = storeOps room (ops[i := (ops ! i)\<lparr>active := False\<rparr>]) st \<and>
            out = [(ToRoom room, UndoOp (opId (ops ! i)))]"
    then obtain room ops i where h: "roomsOperations st room = Some ops"
      "undoScan s ops (length ops) = Some i"
      "st' = storeOps room (ops[i := (ops ! i)\<lparr>active := False\<rparr>]) st"
      by blast
    from undoScan_Some[OF h(2)] have "i < length ops" "userId (ops ! i) = s" by simp_all
    then have "evolves s ops (ops[i := (ops ! i)\<lparr>active := False\<rparr>])"
      by (rule evolves_update)
    with h gapless_update show ?thesis by blast
  qed
next
  case Redo
  with assms(2) have "redo st s = Inr (st', out)" by simp
  from redo_cases[OF this] show ?thesis
  proof
    assume "st' = st \<and> out = []"
    then show ?thesis by simp
  next
    assume "\<exists>room ops i. joinedRoom st s = Some room \<and> roomsOperations st room = Some ops \<and>
            redoScan s ops 0 = Some i \<and>
            st' = storeOps room (ops[i := (ops ! i)\<lparr>active := True\<rparr>]) st \<and>
            out = [(ToRoom room, RedoOp (opId (ops ! i)))]"
    then obtain room ops i where h: "roomsOperations st room = Some ops"
      "redoScan s ops 0 = Some i"
      "st' = storeOps room (ops[i := (ops ! i)\<lparr>active := True\<rparr>]) st"
      by blast
    from redoScan_Some[OF h(2)] have "i < length ops" "userId (ops ! i) = s" by simp_all
    then have "evolves s ops (ops[i := (ops ! i)\<lparr>active := True\<rparr>])"
      by (rule evolves_update)
    with h gapless_update show ?thesis by blast
  qed
qed (use assms(1) in simp_all)

text \<open>The other requests never write to an existing log.\<close>

lemma other_effect:
  assumes "\<not> mutation rq" and "handle api st s rq = Inr (st', out)"
  shows "roomsOperations st' = roomsOperations st \<or>
         (\<exists>room. rq = JoinRoom room \<and> roomsOperations st room = None \<and>
            roomsOperations st' = (roomsOperations st)(room \<mapsto> []))"
proof (cases rq)
  case (Connect name col)
  with assms(2) show ?thesis by (auto simp: connection_def socketJoin_def)
next
  case (JoinRoom room)
  with assms(2) show ?thesis
    by (auto simp: joinRoom_def Let_def socketJoin_def socketLeave_def storeOps_def lookupOps_def
             split: option.splits slot.splits)
next
  case (Cursor pos)
  with assms(2) show ?thesis by (auto simp: cursor_def split: option.splits if_splits)
next
  case Disconnect
  with assms(2) show ?thesis by (auto simp: disconnect_def Let_def split: option.splits)
qed (use assms(1) in simp_all)

lemma step_evolves:
  assumes "handle api st s rq = Inr (st', out)" and "roomsOperations st r = Some l"
  shows "\<exists>l'. roomsOperations st' r = Some l' \<and> evolves s l l'"
proof (cases "mutation rq")
  case True
  from mutation_effect[OF True assms(1)] assms(2) show ?thesis
    by (auto simp: roomsOperations_storeOps evolves_refl)
next
  case False
  from other_effect[OF False assms(1)] assms(2) show ?thesis
    by (auto simp: evolves_refl)
qed

lemma step_gapless:
  assumes "handle api st s rq = Inr (st', out)"
    and "\<forall>r l. roomsOperations st r = Some l \<longrightarrow> gapless l"
  shows "\<forall>r l. roomsOperations st' r = Some l \<longrightarrow> gapless l"
proof (cases "mutation rq")
  case True
  from mutation_effect[OF True assms(1)] assms(2) show ?thesis
    by (auto simp: roomsOperations_storeOps split: if_splits)
next
  case False
  from other_effect[OF False assms(1)] assms(2) show ?thesis
    by (auto simp: gapless_def split: if_splits)
qed

lemma framed_refl: "framed l l"
  by (simp add: framed_def)

lemma evolves_framed: "evolves s l l' \<Longrightarrow> framed l l'"
  by (simp add: evolves_def framed_def)

lemma framed_trans:
  assumes "framed l1 l2" and "framed l2 l3"
  shows "framed l1 l3"
proof -
  have len: "length l1 \<le> length l2" "length l2 \<le> length l3"
    using assms by (simp_all add: framed_def)
  have "l3 ! i = (l1 ! i)\<lparr>active := active (l3 ! i)\<rparr>" if "i < length l1" for i
  proof -
    from that len have i2: "i < length l2" by simp
    from assms(1) that have a: "l2 ! i = (l1 ! i)\<lparr>active := active (l2 ! i)\<rparr>"
      by (simp add: framed_def)
    from assms(2) i2 have b: "l3 ! i = (l2 ! i)\<lparr>active := active (l3 ! i)\<rparr>"
      by (simp add: framed_def)
    show ?thesis by (subst b, subst a) simp
  qed
  with len show ?thesis by (simp add: framed_def)
qed

lemma run_evolves:
  assumes "roomsOperations st r = Some l"
  shows "\<exists>l'. roomsOperations (fst (run api st (map (Pair s) rqs))) r = Some l' \<and> evolves s l l'"
  using assms
proof (induction rqs arbitrary: st l)
  case Nil
  then show ?case by (simp add: evolves_refl)
next
  case (Cons rq rqs)
  show ?case
  proof (cases "handle api st s rq")
    case (Inl e)
    with Cons.prems show ?thesis by (simp add: evolves_refl)
  next
    case (Inr res)
    obtain st' out where res: "res = (st', out)" by (cases res)
    from step_evolves[OF Inr[unfolded res] Cons.prems]
    obtain l1 where l1: "roomsOperations st' r = Some l1" "evolves s l l1" by blast
    from Cons.IH[OF l1(1)]
    obtain l2 where "roomsOperations (fst (run api st' (map (Pair s) rqs))) r = Some l2"
      "evolves s l1 l2" by blast
    with l1(2) Inr res show ?thesis
      by (auto intro: evolves_trans)
  qed
qed

lemma run_framed:
  assumes "roomsOperations st r = Some l"
  shows "\<exists>l'. roomsOperations (fst (run api st evs)) r = Some l' \<and> framed l l'"
  using assms
proof (induction evs arbitrary: st l)
  case Nil
  then show ?case by (simp add: framed_refl)
next
  case (Cons ev evs)
  obtain s rq where ev: "ev = (s, rq)" by (cases ev)
  show ?case
  proof (cases "handle api st s rq")
    case (Inl e)
    with Cons.prems ev show ?thesis by (simp add: framed_refl)
  next
    case (Inr res)
    obtain st' out where res: "res = (st', out)" by (cases res)
    from step_evolves[OF Inr[unfolded res] Cons.prems]
    obtain l1 where l1: "roomsOperations st' r = Some l1" "framed l l1"
      using evolves_framed by blast
    from Cons.IH[OF l1(1)]
    obtain l2 where "roomsOperations (fst (run api st' evs)) r = Some l2" "framed l1 l2"
      by blast
    with l1(2) Inr res ev show ?thesis
      by (auto intro: framed_trans)
  qed
qed

lemma run_gapless:
  assumes "\<forall>r l. roomsOperations st r = Some l \<longrightarrow> gapless l"
  shows "\<forall>r l. roomsOperations (fst (run api st evs)) r = Some l \<longrightarrow> gapless l"
  using assms
proof (induction evs arbitrary: st)
  case Nil
  then show ?case by simp
next
  case (Cons ev evs)
  obtain s rq where ev: "ev = (s, rq)" by (cases ev)
  show ?case
  proof (cases "handle api st s rq")
    case (Inl e)
    with Cons.prems ev show ?thesis by simp
  next
    case (Inr res)
    obtain st' out where res: "res = (st', out)" by (cases res)
    from step_gapless[OF Inr[unfolded res] Cons.prems]
    have "\<forall>r l. roomsOperations st' r = Some l \<longrightarrow> gapless l" .
    from Cons.IH[OF this] Inr res ev show ?thesis by simp
  qed
qed

lemma framed_fields:
  assumes "framed l l'" and "i < length l"
  shows "userId (l' ! i) = userId (l ! i) \<and> prevX (l' ! i) = prevX (l ! i) \<and>
         prevY (l' ! i) = prevY (l ! i) \<and> opX (l' ! i) = opX (l ! i) \<and>
         opY (l' ! i) = opY (l ! i) \<and> color (l' ! i) = color (l ! i) \<and>
         opSize (l' ! i) = opSize (l ! i) \<and> tool (l' ! i) = tool (l ! i) \<and>
         opId (l' ! i) = opId (l ! i) \<and> clientId (l' ! i) = clientId (l ! i)"
proof -
  from assms have "l' ! i = (l ! i)\<lparr>active := active (l' ! i)\<rparr>"
    by (simp add: framed_def)
  then obtain a where "l' ! i = (l ! i)\<lparr>active := a\<rparr>" ..
  then show ?thesis by simp
qed

lemmas ev_defs = connection_def joinRoom_def draw_def undo_def redo_def clear_def cursor_def
  disconnect_def Let_def joinedRoom_def lookupOps_def object_prototype_def storeOps_def
  socketJoin_def socketLeave_def broadcastUserList_def validDraw_def init_def mkOp_def
  nullStore_def segment_def bareSegment_def

lemma sampleState_log: "roomsOperations sampleState ''default'' = Some sampleLog"
  by (simp add: sampleState_def session_def sampleLog_def ev_defs)

lemma sampleState_room:
  "currentRoom sampleState ''a'' = Some ''default''"
  "currentRoom sampleState ''b'' = Some ''default''"
  "currentRoom sampleState ''c'' = Some ''default''"
  "currentRoom sampleState ''z'' = None"
  by (simp_all add: sampleState_def session_def ev_defs)


lemma joinedRoom_Some:
  "currentRoom st u = Some r \<Longrightarrow> r \<noteq> [] \<Longrightarrow> joinedRoom st u = Some r"
  by (simp add: joinedRoom_def)

lemma joinedRoom_storeOps [simp]: "joinedRoom (storeOps room ops st) u = joinedRoom st u"
  by (simp add: joinedRoom_def storeOps_def)

lemma lookupOps_storeOps [simp]: "lookupOps (storeOps room ops st) room = Log ops"
  by (simp add: lookupOps_def storeOps_def)

lemma storeOps_storeOps [simp]: "storeOps room ops' (storeOps room ops st) = storeOps room ops' st"
  by (simp add: storeOps_def)

lemma storeOps_same: "roomsOperations st room = Some ops \<Longrightarrow> storeOps room ops st = st"
  by (simp add: storeOps_def map_upd_triv)

lemma undoScan_last:
  assumes "i < length l" and "userId (l ! i) = u" and "active (l ! i)"
    and "\<forall>j<length l. i < j \<longrightarrow> \<not> (userId (l ! j) = u \<and> active (l ! j))"
  shows "undoScan u l (length l) = Some i"
proof (cases "undoScan u l (length l)")
  case None
  with assms(1-3) show ?thesis by (auto simp: undoScan_None)
next
  case (Some k)
  from undoScan_Some[OF Some]
  have k: "k < length l" "userId (l ! k) = u" "active (l ! k)"
    and kmax: "\<forall>j. k < j \<and> j < length l \<longrightarrow> \<not> (userId (l ! j) = u \<and> active (l ! j))"
    by simp_all
  have "\<not> k < i" using kmax assms(1-3) by blast
  moreover have "\<not> i < k" using assms(4) k by blast
  ultimately have "k = i" by simp
  with Some show ?thesis by simp
qed

lemma redoScan_first:
  assumes "i < length l" and "userId (l ! i) = u" and "\<not> active (l ! i)"
    and "\<forall>j<i. \<not> (userId (l ! j) = u \<and> \<not> active (l ! j))"
  shows "redoScan u l 0 = Some i"
proof (cases "redoScan u l 0")
  case None
  with assms(1-3) show ?thesis by (auto simp: redoScan_None)
next
  case (Some k)
  from redoScan_Some[OF Some]
  have k: "k < length l" "userId (l ! k) = u" "\<not> active (l ! k)"
    and kmin: "\<forall>j. 0 \<le> j \<and> j < k \<longrightarrow> \<not> (userId (l ! j) = u \<and> \<not> active (l ! j))"
    by simp_all
  have "\<not> i < k" using kmin assms(1-3) by blast
  moreover have "\<not> k < i" using assms(4) k by blast
  ultimately have "k = i" by simp
  with Some show ?thesis by simp
qed

lemma sorted_ids:
  assumes "gapless l"
  shows "sorted_wrt (<) (map opId (filter P l))"
proof -
  from assms have "sorted_wrt (<) (map opId l)"
    by (simp add: gapless_def)
  then have "sorted_wrt (\<lambda>p q. opId p < opId q) l"
    by (simp add: sorted_wrt_map)
  then have "sorted_wrt (\<lambda>p q. opId p < opId q) (filter P l)"
    by (rule sorted_wrt_filter)
  then show ?thesis by (simp add: sorted_wrt_map)
qed

lemma init_gapless: "\<forall>r l. roomsOperations (init g) r = Some l \<longrightarrow> gapless l"
  by (simp add: init_def)

lemma mkOp_sel [simp]:
  "userId (mkOp s ev n) = s" "active (mkOp s ev n)" "opId (mkOp s ev n) = n"
  by (simp_all add: mkOp_def)

lemma mkOp_reactivate [simp]: "(mkOp s ev n)\<lparr>active := False, active := True\<rparr> = mkOp s ev n"
  by (simp add: mkOp_def)

lemma sample_nonempty: "''default'' \<noteq> []"
  by simp

text \<open>
  What a join that returns does to the memberships: the socket leaves its current room
  if that is truthy, enters the new one, and the registry is asked to add it.
\<close>

lemma joinRoom_membership:
  assumes "joinRoom api st s room = Inr (st', out)"
  shows "currentRoom st' = (currentRoom st)(s := Some room)"
    and "s \<in> adapterRooms st' room"
    and "joinedRoom st s = Some c \<Longrightarrow> c \<noteq> room \<Longrightarrow> s \<notin> adapterRooms st' c"
    and "joinedRoom st s = None \<Longrightarrow> c \<noteq> room \<Longrightarrow> adapterRooms st' c = adapterRooms st c"
    and "roomStore st' = addClient api room s (roomStore st)"
  using assms
  by (auto simp: joinRoom_def Let_def socketJoin_def socketLeave_def storeOps_def
           split: option.splits slot.splits)

section \<open>Properties of the server\<close>

subsection \<open>Cross-user isolation\<close>

text \<open>
  C1. Let \<open>A\<close> and \<open>B\<close> be distinct users and \<open>l\<close> the log of a room. After any
  sequence of requests handled for \<open>A\<close> (draw, undo, redo and clear, and any other
  request as well) the room has a log \<open>l'\<close> that continues \<open>l\<close>; every operation of
  \<open>B\<close> in \<open>l\<close> is still an operation of \<open>B\<close> at the same position with the same
  flag \<open>active\<close>, and \<open>l'\<close> holds no further operation of \<open>B\<close>. The run stops at the
  first request that throws, so the statement covers the state left by such a run too.
\<close>

theorem cross_user_isolation:
  assumes "A \<noteq> B" and "roomsOperations st r = Some l"
  shows "\<exists>l'. roomsOperations (fst (run api st (map (Pair A) rqs))) r = Some l' \<and>
           length l \<le> length l' \<and>
           (\<forall>i<length l. userId (l ! i) = B \<longrightarrow>
              userId (l' ! i) = B \<and> active (l' ! i) = active (l ! i)) \<and>
           (\<forall>i<length l'. userId (l' ! i) = B \<longrightarrow> i < length l)"
proof -
  from run_evolves[OF assms(2)]
  obtain l' where l': "roomsOperations (fst (run api st (map (Pair A) rqs))) r = Some l'"
    and ev: "evolves A l l'" by blast
  from ev assms(1) have "length l \<le> length l'"
    and "\<forall>i<length l. userId (l ! i) = B \<longrightarrow> l' ! i = l ! i"
    and "\<forall>i<length l'. userId (l' ! i) = B \<longrightarrow> i < length l"
    by (auto simp: evolves_def not_le[symmetric])
  with l' show ?thesis by auto
qed

theorem cross_user_isolation_witness:
  "''a'' \<noteq> ''b'' \<and> roomsOperations sampleState ''default'' = Some sampleLog \<and>
   (\<exists>l'. roomsOperations (fst (run nullStore sampleState
              (map (Pair ''a'') [Clear, Redo, Draw (segment 2 2 3 3), Undo]))) ''default'' = Some l' \<and>
      length sampleLog \<le> length l' \<and>
      (\<forall>i<length sampleLog. userId (sampleLog ! i) = ''b'' \<longrightarrow>
         userId (l' ! i) = ''b'' \<and> active (l' ! i) = active (sampleLog ! i)) \<and>
      (\<forall>i<length l'. userId (l' ! i) = ''b'' \<longrightarrow> i < length sampleLog))"
proof -
  have h1: "''a'' \<noteq> ''b''" by simp
  show ?thesis
    by (rule conjI[OF h1 conjI[OF sampleState_log cross_user_isolation[OF h1 sampleState_log]]])
qed

subsection \<open>Gapless ids\<close>

text \<open>
  C2. In every state reached from the initial state by handling requests, the log of
  every room holds the ids \<open>0, 1, ..., n - 1\<close> in this order: the id is the length of
  the log at the append, and no undo, redo or clear moves or removes an operation.
\<close>

theorem gapless_ids:
  assumes "roomsOperations (fst (run api (init g) evs)) r = Some l"
  shows "map opId l = [0..<length l]"
proof -
  have "\<forall>r l. roomsOperations (init g) r = Some l \<longrightarrow> gapless l"
    by (simp add: init_def)
  from run_gapless[OF this] assms show ?thesis
    by (simp add: gapless_def)
qed

theorem gapless_ids_witness:
  "roomsOperations (fst (run nullStore (init ()) session)) ''default'' = Some sampleLog \<and>
   map opId sampleLog = [0..<length sampleLog]"
proof -
  have h: "roomsOperations (fst (run nullStore (init ()) session)) ''default'' = Some sampleLog"
    using sampleState_log by (simp only: sampleState_def)
  show ?thesis by (rule conjI[OF h gapless_ids[OF h]])
qed

subsection \<open>Undo\<close>

text \<open>
  Where the current room of the user has a log, undo scans it from the end. Let the
  current room \<open>r\<close> of \<open>u\<close> be non-empty with the log \<open>l\<close>. If no
  operation of \<open>l\<close> is by \<open>u\<close> and active, undo changes nothing and emits nothing. If
  \<open>i\<close> is the last position of \<open>l\<close> whose operation is by \<open>u\<close> and active, undo
  sets \<open>active\<close> to false at \<open>i\<close>, leaves the rest of the state as it is, and emits the
  id of that operation to the room.
\<close>

lemma undo_on_log:
  assumes "currentRoom st u = Some r" and "r \<noteq> []" and "roomsOperations st r = Some l"
  shows "((\<forall>j<length l. \<not> (userId (l ! j) = u \<and> active (l ! j))) \<longrightarrow>
            undo st u = Inr (st, [])) \<and>
         (\<forall>i<length l.
            userId (l ! i) = u \<and> active (l ! i) \<and>
            (\<forall>j<length l. i < j \<longrightarrow> \<not> (userId (l ! j) = u \<and> active (l ! j))) \<longrightarrow>
            undo st u =
              Inr (st\<lparr>roomsOperations := (roomsOperations st)(r \<mapsto> l[i := (l ! i)\<lparr>active := False\<rparr>])\<rparr>,
                   [(ToRoom r, UndoOp (opId (l ! i)))]))"
proof -
  from assms have j: "joinedRoom st u = Some r" and lk: "lookupOps st r = Log l"
    by (simp_all add: joinedRoom_Some lookupOps_Log)
  have none: "undo st u = Inr (st, [])"
    if "\<forall>j<length l. \<not> (userId (l ! j) = u \<and> active (l ! j))"
  proof -
    from that have "undoScan u l (length l) = None" by (simp add: undoScan_None)
    with j lk show ?thesis by (simp add: undo_def)
  qed
  have some: "undo st u =
      Inr (st\<lparr>roomsOperations := (roomsOperations st)(r \<mapsto> l[i := (l ! i)\<lparr>active := False\<rparr>])\<rparr>,
           [(ToRoom r, UndoOp (opId (l ! i)))])"
    if "i < length l" "userId (l ! i) = u" "active (l ! i)"
      "\<forall>j<length l. i < j \<longrightarrow> \<not> (userId (l ! j) = u \<and> active (l ! j))" for i
  proof -
    from that have "undoScan u l (length l) = Some i" by (rule undoScan_last)
    with j lk show ?thesis by (simp add: undo_def storeOps_def)
  qed
  from none some show ?thesis by blast
qed

lemma undo_on_log_example:
  "currentRoom sampleState ''b'' = Some ''default'' \<and> ''default'' \<noteq> [] \<and>
   roomsOperations sampleState ''default'' = Some sampleLog \<and>
   undo sampleState ''b'' =
     Inr (sampleState\<lparr>roomsOperations := (roomsOperations sampleState)(''default'' \<mapsto>
            sampleLog[1 := (sampleLog ! 1)\<lparr>active := False\<rparr>])\<rparr>,
          [(ToRoom ''default'', UndoOp 1)]) \<and>
   currentRoom sampleState ''c'' = Some ''default'' \<and>
   undo sampleState ''c'' = Inr (sampleState, [])"
proof -
  note b = undo_on_log[OF sampleState_room(2) sample_nonempty sampleState_log]
  note c = undo_on_log[OF sampleState_room(3) sample_nonempty sampleState_log]
  have "undo sampleState ''b'' =
     Inr (sampleState\<lparr>roomsOperations := (roomsOperations sampleState)(''default'' \<mapsto>
            sampleLog[1 := (sampleLog ! 1)\<lparr>active := False\<rparr>])\<rparr>,
          [(ToRoom ''default'', UndoOp (opId (sampleLog ! 1)))])"
    using b[THEN conjunct2, rule_format, of 1]
    by (simp add: sampleLog_def less_Suc_eq)
  moreover have "opId (sampleLog ! 1) = 1" by (simp add: sampleLog_def)
  moreover have "undo sampleState ''c'' = Inr (sampleState, [])"
    using c[THEN conjunct1] by (simp add: sampleLog_def less_Suc_eq)
  ultimately show ?thesis
    using sampleState_room sampleState_log by simp
qed

text \<open>
  C3. A joined user without an active operation need not get the silent no-op. The join
  handler installs no log for a room named like a property of \<^verbatim>\<open>Object.prototype\<close>.
  After joining the room \<^verbatim>\<open>constructor\<close> the socket is in that room, no request has
  thrown and there is no operation at all; the undo handler then starts its loop at the
  \<^verbatim>\<open>length\<close> of the inherited function minus one, reads \<^verbatim>\<open>userId\<close> of an undefined
  element and throws.
\<close>

theorem undo_inherited_room_throws:
  "snd (run api (init g)
     [(''a'', Connect name col), (''a'', JoinRoom ''constructor'')]) = None \<and>
   currentRoom (fst (run api (init g)
     [(''a'', Connect name col), (''a'', JoinRoom ''constructor'')])) ''a'' = Some ''constructor'' \<and>
   adapterRooms (fst (run api (init g)
     [(''a'', Connect name col), (''a'', JoinRoom ''constructor'')])) ''constructor'' = {''a''} \<and>
   roomsOperations (fst (run api (init g)
     [(''a'', Connect name col), (''a'', JoinRoom ''constructor'')])) = Map.empty \<and>
   undo (fst (run api (init g)
     [(''a'', Connect name col), (''a'', JoinRoom ''constructor'')])) ''a'' = Inl TypeError"
  by (simp add: ev_defs)

subsection \<open>Clear\<close>

text \<open>
  Where the current room of the user has a log, clear walks through it. Let the current
  room \<open>r\<close> of \<open>u\<close> be non-empty with the log \<open>l\<close>. Clear sets
  \<open>active\<close> to false on every operation that is by \<open>u\<close> and active, leaves every other
  operation and the rest of the state as they are, and emits to the room the ids of the
  operations it changed, in the order of the log. If there is no such operation the state
  is unchanged and the empty list is emitted. In a state reached from the initial state
  the emitted ids are strictly ascending.
\<close>

lemma clear_on_log:
  assumes "currentRoom st u = Some r" and "r \<noteq> []" and "roomsOperations st r = Some l"
  shows "clear st u =
           Inr (st\<lparr>roomsOperations := (roomsOperations st)(r \<mapsto>
                      map (\<lambda>p. if userId p = u \<and> active p then p\<lparr>active := False\<rparr> else p) l)\<rparr>,
                [(ToRoom r, ClearUserStrokes
                    (map opId (filter (\<lambda>p. userId p = u \<and> active p) l)))]) \<and>
         ((\<forall>p\<in>set l. \<not> (userId p = u \<and> active p)) \<longrightarrow>
            clear st u = Inr (st, [(ToRoom r, ClearUserStrokes [])])) \<and>
         (st = fst (run api (init g) evs) \<longrightarrow>
            sorted_wrt (<) (map opId (filter (\<lambda>p. userId p = u \<and> active p) l)))"
proof -
  from assms have j: "joinedRoom st u = Some r" and lk: "lookupOps st r = Log l"
    by (simp_all add: joinedRoom_Some lookupOps_Log)
  have eq: "clear st u =
      Inr (storeOps r (map (\<lambda>p. if userId p = u \<and> active p then p\<lparr>active := False\<rparr> else p) l) st,
           [(ToRoom r, ClearUserStrokes (map opId (filter (\<lambda>p. userId p = u \<and> active p) l)))])"
    using j lk by (simp add: clear_def clearLoop_eq)
  have quiet: "clear st u = Inr (st, [(ToRoom r, ClearUserStrokes [])])"
    if "\<forall>p\<in>set l. \<not> (userId p = u \<and> active p)"
  proof -
    from that have m: "map (\<lambda>p. if userId p = u \<and> active p then p\<lparr>active := False\<rparr> else p) l = l"
      by (simp add: map_idI)
    from that have f: "filter (\<lambda>p. userId p = u \<and> active p) l = []"
      by (simp add: filter_empty_conv)
    from eq show ?thesis
      unfolding m f by (simp add: storeOps_same[OF assms(3)])
  qed
  have asc: "sorted_wrt (<) (map opId (filter (\<lambda>p. userId p = u \<and> active p) l))"
    if "st = fst (run api (init g) evs)"
  proof -
    from run_gapless[OF init_gapless, of api g evs] that assms(3) have "gapless l"
      by simp
    then show ?thesis by (rule sorted_ids)
  qed
  from eq quiet asc show ?thesis
    by (simp add: storeOps_def)
qed

lemma clear_on_log_example:
  "currentRoom sampleState ''a'' = Some ''default'' \<and> ''default'' \<noteq> [] \<and>
   roomsOperations sampleState ''default'' = Some sampleLog \<and>
   sampleState = fst (run nullStore (init ()) session) \<and>
   clear sampleState ''a'' =
     Inr (sampleState\<lparr>roomsOperations := (roomsOperations sampleState)(''default'' \<mapsto>
            [(mkOp ''a'' (segment 0 0 1 1) 0)\<lparr>active := False\<rparr>, mkOp ''b'' (segment 5 5 6 6) 1,
             (mkOp ''a'' (segment 1 1 2 2) 2)\<lparr>active := False\<rparr>])\<rparr>,
          [(ToRoom ''default'', ClearUserStrokes [0])]) \<and>
   sorted_wrt (<) (map opId (filter (\<lambda>p. userId p = ''a'' \<and> active p) sampleLog)) \<and>
   clear sampleState ''c'' = Inr (sampleState, [(ToRoom ''default'', ClearUserStrokes [])])"
proof -
  note a = clear_on_log[OF sampleState_room(1) sample_nonempty sampleState_log,
      of nullStore "()" session]
  note c = clear_on_log[OF sampleState_room(3) sample_nonempty sampleState_log,
      of nullStore "()" session]
  have 1: "clear sampleState ''a'' =
     Inr (sampleState\<lparr>roomsOperations := (roomsOperations sampleState)(''default'' \<mapsto>
            [(mkOp ''a'' (segment 0 0 1 1) 0)\<lparr>active := False\<rparr>, mkOp ''b'' (segment 5 5 6 6) 1,
             (mkOp ''a'' (segment 1 1 2 2) 2)\<lparr>active := False\<rparr>])\<rparr>,
          [(ToRoom ''default'', ClearUserStrokes [0])])"
    using a[THEN conjunct1] by (simp add: sampleLog_def)
  have 2: "sorted_wrt (<) (map opId (filter (\<lambda>p. userId p = ''a'' \<and> active p) sampleLog))"
    using a[THEN conjunct2, THEN conjunct2] sampleState_def by blast
  have 3: "clear sampleState ''c'' = Inr (sampleState, [(ToRoom ''default'', ClearUserStrokes [])])"
    using c[THEN conjunct2, THEN conjunct1] by (simp add: sampleLog_def)
  from 1 2 3 sampleState_room sampleState_log sampleState_def show ?thesis by blast
qed

text \<open>
  C4. A joined user without an active operation need not get the broadcast of the empty
  list. After joining the room \<^verbatim>\<open>toString\<close>, for which the join handler installs no
  log, the socket is in that room and the clear handler calls \<^verbatim>\<open>forEach\<close> on the
  inherited function and throws. After joining the room named by the empty string the
  socket is in that room, but the guard \<^verbatim>\<open>if (!currentRoom) return;\<close> takes the name for
  no room and clear emits nothing.
\<close>

theorem clear_inherited_or_empty_room:
  "snd (run api (init g)
     [(''a'', Connect name col), (''a'', JoinRoom ''toString'')]) = None \<and>
   currentRoom (fst (run api (init g)
     [(''a'', Connect name col), (''a'', JoinRoom ''toString'')])) ''a'' = Some ''toString'' \<and>
   adapterRooms (fst (run api (init g)
     [(''a'', Connect name col), (''a'', JoinRoom ''toString'')])) ''toString'' = {''a''} \<and>
   clear (fst (run api (init g)
     [(''a'', Connect name col), (''a'', JoinRoom ''toString'')])) ''a'' = Inl TypeError \<and>
   snd (run api (init g)
     [(''a'', Connect name col), (''a'', JoinRoom '''')]) = None \<and>
   adapterRooms (fst (run api (init g)
     [(''a'', Connect name col), (''a'', JoinRoom '''')])) '''' = {''a''} \<and>
   roomsOperations (fst (run api (init g)
     [(''a'', Connect name col), (''a'', JoinRoom '''')])) '''' = Some [] \<and>
   clear (fst (run api (init g)
     [(''a'', Connect name col), (''a'', JoinRoom '''')])) ''a'' =
     Inr (fst (run api (init g)
       [(''a'', Connect name col), (''a'', JoinRoom '''')]), [])"
  by (simp add: ev_defs)

subsection \<open>Draw, undo, redo\<close>

text \<open>
  C5, as amended. The redo handler reactivates the first inactive operation of the user
  in the log, which is the operation just undone only if the user has no older inactive
  operation. Let the current room \<open>r\<close> of \<open>u\<close> be non-empty with the log \<open>l\<close>, let
  the payload pass the test of the draw handler, and let every operation of \<open>u\<close> in
  \<open>l\<close> be active. Then the draw appends an active operation \<open>o\<close> with the id
  \<open>length l\<close>, the undo that follows deactivates \<open>o\<close>, and the redo that follows
  gives back the state after the draw: \<open>o\<close> is active, with the same id and payload.
\<close>

theorem draw_undo_redo_round_trip:
  assumes "currentRoom st u = Some r" and "r \<noteq> []" and "roomsOperations st r = Some l"
    and "validDraw ev" and "\<forall>p\<in>set l. userId p = u \<longrightarrow> active p"
  shows "draw st u ev =
           Inr (storeOps r (l @ [mkOp u ev (length l)]) st,
                [(ToRoom r, DrawEv (mkOp u ev (length l)))]) \<and>
         undo (storeOps r (l @ [mkOp u ev (length l)]) st) u =
           Inr (storeOps r (l @ [(mkOp u ev (length l))\<lparr>active := False\<rparr>]) st,
                [(ToRoom r, UndoOp (length l))]) \<and>
         redo (storeOps r (l @ [(mkOp u ev (length l))\<lparr>active := False\<rparr>]) st) u =
           Inr (storeOps r (l @ [mkOp u ev (length l)]) st,
                [(ToRoom r, RedoOp (length l))])"
proof -
  let ?o = "mkOp u ev (length l)"
  from assms have j: "joinedRoom st u = Some r" and lk: "lookupOps st r = Log l"
    by (simp_all add: joinedRoom_Some lookupOps_Log)
  have d: "draw st u ev = Inr (storeOps r (l @ [?o]) st, [(ToRoom r, DrawEv ?o)])"
    using j lk assms(4) by (simp add: draw_def Let_def)
  have "undoScan u (l @ [?o]) (length (l @ [?o])) = Some (length l)"
    by (rule undoScan_last) (simp_all add: nth_append)
  then have un: "undo (storeOps r (l @ [?o]) st) u =
      Inr (storeOps r (l @ [?o\<lparr>active := False\<rparr>]) st, [(ToRoom r, UndoOp (length l))])"
    using j by (simp add: undo_def)
  have "redoScan u (l @ [?o\<lparr>active := False\<rparr>]) 0 = Some (length l)"
  proof (rule redoScan_first)
    show "\<forall>j<length l. \<not> (userId ((l @ [?o\<lparr>active := False\<rparr>]) ! j) = u \<and>
            \<not> active ((l @ [?o\<lparr>active := False\<rparr>]) ! j))"
      using assms(5) by (simp add: nth_append)
  qed (simp_all add: nth_append)
  then have re: "redo (storeOps r (l @ [?o\<lparr>active := False\<rparr>]) st) u =
      Inr (storeOps r (l @ [?o]) st, [(ToRoom r, RedoOp (length l))])"
    using j by (simp add: redo_def)
  from d un re show ?thesis by simp
qed

text \<open>
  C5 as stated fails where the user has an older inactive operation. In the sample state
  the operation 2 of \<^verbatim>\<open>a\<close> is inactive; after a draw, an undo and a redo of \<^verbatim>\<open>a\<close> the
  redo has reactivated operation 2, and the operation just drawn, with the id 3, is
  inactive.
\<close>

theorem round_trip_counterexample:
  "roomsOperations (fst (run nullStore sampleState
      [(''a'', Draw (segment 7 7 8 8)), (''a'', Undo), (''a'', Redo)])) ''default'' =
     Some [mkOp ''a'' (segment 0 0 1 1) 0, mkOp ''b'' (segment 5 5 6 6) 1,
           mkOp ''a'' (segment 1 1 2 2) 2,
           (mkOp ''a'' (segment 7 7 8 8) 3)\<lparr>active := False\<rparr>]"
  by (simp add: sampleState_def session_def ev_defs redoScan.simps)

theorem draw_undo_redo_round_trip_witness:
  "currentRoom sampleState ''b'' = Some ''default'' \<and> ''default'' \<noteq> [] \<and>
   roomsOperations sampleState ''default'' = Some sampleLog \<and>
   validDraw (segment 7 7 8 8) \<and>
   filter (\<lambda>p. userId p = ''b'' \<and> \<not> active p) sampleLog = [] \<and>
   draw sampleState ''b'' (segment 7 7 8 8) =
     Inr (storeOps ''default'' (sampleLog @ [mkOp ''b'' (segment 7 7 8 8) (length sampleLog)]) sampleState,
          [(ToRoom ''default'', DrawEv (mkOp ''b'' (segment 7 7 8 8) (length sampleLog)))]) \<and>
   undo (storeOps ''default'' (sampleLog @ [mkOp ''b'' (segment 7 7 8 8) (length sampleLog)]) sampleState) ''b'' =
     Inr (storeOps ''default''
            (sampleLog @ [(mkOp ''b'' (segment 7 7 8 8) (length sampleLog))\<lparr>active := False\<rparr>]) sampleState,
          [(ToRoom ''default'', UndoOp (length sampleLog))]) \<and>
   redo (storeOps ''default''
            (sampleLog @ [(mkOp ''b'' (segment 7 7 8 8) (length sampleLog))\<lparr>active := False\<rparr>]) sampleState) ''b'' =
     Inr (storeOps ''default'' (sampleLog @ [mkOp ''b'' (segment 7 7 8 8) (length sampleLog)]) sampleState,
          [(ToRoom ''default'', RedoOp (length sampleLog))])"
proof -
  have v: "validDraw (segment 7 7 8 8)" by (simp add: validDraw_def segment_def)
  have none: "filter (\<lambda>p. userId p = ''b'' \<and> \<not> active p) sampleLog = []"
    by (simp add: sampleLog_def)
  then have act: "\<forall>p\<in>set sampleLog. userId p = ''b'' \<longrightarrow> active p"
    by (auto simp: filter_empty_conv)
  note t = draw_undo_redo_round_trip[OF sampleState_room(2) sample_nonempty sampleState_log v act]
  show ?thesis
    by (intro conjI sampleState_room(2) sample_nonempty sampleState_log v none
          t[THEN conjunct1] t[THEN conjunct2, THEN conjunct1] t[THEN conjunct2, THEN conjunct2])
qed

subsection \<open>Room membership\<close>

text \<open>
  C6. The handler leaves the previous room only if \<^verbatim>\<open>currentRoom\<close> is truthy. A socket
  that joins the room named by the empty string and then the room \<^verbatim>\<open>lobby\<close> is in both
  rooms of Socket.IO afterwards, and no request throws. The registry \<^verbatim>\<open>roomStore\<close> was
  told to add the socket to both rooms and never to remove it, and so it is on a change
  from \<^verbatim>\<open>lobby\<close> to \<^verbatim>\<open>studio\<close>: the join handler has no call of
  \<^verbatim>\<open>removeClient\<close>, which only the disconnect handler calls. (By
  \<open>joinRoom_membership\<close> a socket whose current room is truthy does leave it in
  Socket.IO on joining another.)
\<close>

theorem join_falsy_room_two_rooms:
  "snd (run api (init g)
     [(''a'', Connect name col), (''a'', JoinRoom ''''), (''a'', JoinRoom ''lobby'')]) = None \<and>
   adapterRooms (fst (run api (init g)
     [(''a'', Connect name col), (''a'', JoinRoom ''''), (''a'', JoinRoom ''lobby'')])) '''' = {''a''} \<and>
   adapterRooms (fst (run api (init g)
     [(''a'', Connect name col), (''a'', JoinRoom ''''), (''a'', JoinRoom ''lobby'')])) ''lobby'' = {''a''} \<and>
   roomStore (fst (run api (init g)
     [(''a'', Connect name col), (''a'', JoinRoom ''''), (''a'', JoinRoom ''lobby'')])) =
     addClient api ''lobby'' ''a'' (addClient api '''' ''a'' g) \<and>
   roomStore (fst (run api (init g)
     [(''a'', Connect name col), (''a'', JoinRoom ''lobby''), (''a'', JoinRoom ''studio'')])) =
     addClient api ''studio'' ''a'' (addClient api ''lobby'' ''a'' g)"
  by (simp add: ev_defs)

subsection \<open>Immutability of operations\<close>

text \<open>
  C7. Let \<open>l\<close> be the log of a room. After any sequence of requests of any sessions
  (connect, join, draw, undo, redo, clear, cursor, disconnect) the room has a log \<open>l'\<close>
  that continues \<open>l\<close>, and each operation of \<open>l\<close> is at the same position of \<open>l'\<close>
  with the same author, coordinates, colour, size, tool, id and client id. Only the field
  \<open>active\<close> may differ.
\<close>

theorem immutability_frame:
  assumes "roomsOperations st r = Some l"
  shows "\<exists>l'. roomsOperations (fst (run api st evs)) r = Some l' \<and>
           length l \<le> length l' \<and>
           (\<forall>i<length l.
              userId (l' ! i) = userId (l ! i) \<and> prevX (l' ! i) = prevX (l ! i) \<and>
              prevY (l' ! i) = prevY (l ! i) \<and> opX (l' ! i) = opX (l ! i) \<and>
              opY (l' ! i) = opY (l ! i) \<and> color (l' ! i) = color (l ! i) \<and>
              opSize (l' ! i) = opSize (l ! i) \<and> tool (l' ! i) = tool (l ! i) \<and>
              opId (l' ! i) = opId (l ! i) \<and> clientId (l' ! i) = clientId (l ! i))"
proof -
  from run_framed[OF assms]
  obtain l' where l': "roomsOperations (fst (run api st evs)) r = Some l'" and f: "framed l l'"
    by blast
  from f have "length l \<le> length l'" by (simp add: framed_def)
  with l' framed_fields[OF f] show ?thesis by blast
qed

theorem immutability_frame_witness:
  "roomsOperations sampleState ''default'' = Some sampleLog \<and>
   (\<exists>l'. roomsOperations (fst (run nullStore sampleState
              [(''b'', Undo), (''a'', Clear), (''c'', Draw (segment 2 2 3 3)),
               (''c'', JoinRoom ''studio''), (''b'', Disconnect)])) ''default'' = Some l' \<and>
      length sampleLog \<le> length l' \<and>
      (\<forall>i<length sampleLog.
         userId (l' ! i) = userId (sampleLog ! i) \<and> prevX (l' ! i) = prevX (sampleLog ! i) \<and>
         prevY (l' ! i) = prevY (sampleLog ! i) \<and> opX (l' ! i) = opX (sampleLog ! i) \<and>
         opY (l' ! i) = opY (sampleLog ! i) \<and> color (l' ! i) = color (sampleLog ! i) \<and>
         opSize (l' ! i) = opSize (sampleLog ! i) \<and> tool (l' ! i) = tool (sampleLog ! i) \<and>
         opId (l' ! i) = opId (sampleLog ! i) \<and> clientId (l' ! i) = clientId (sampleLog ! i)))"
  by (rule conjI[OF sampleState_log immutability_frame[OF sampleState_log]])

subsection \<open>Dropped draws\<close>




subsection \<open>Cursor relay\<close>




subsection \<open>Joining and the log\<close>

text \<open>
  C10. The test \<^verbatim>\<open>!roomsOperations[room]\<close> of the join handler finds the inherited value
  for a room named like a property of \<^verbatim>\<open>Object.prototype\<close>. Joining the room
  \<^verbatim>\<open>constructor\<close>, never seen before, installs no log, and the next draw of the
  session throws. (By \<open>other_effect\<close> a join never changes a log that exists, and
  installs the empty log for any other name without one.)
\<close>

theorem join_inherited_name_installs_no_log:
  "roomsOperations (fst (run api (init g)
      [(''a'', Connect name col), (''a'', JoinRoom ''constructor'')])) ''constructor'' = None \<and>
   snd (run api (init g)
      [(''a'', Connect name col), (''a'', JoinRoom ''constructor''),
       (''a'', Draw (segment 0 0 1 1))]) = Some TypeError"
  by (simp add: ev_defs)

end
